theory Spec2Isabelle
  imports Main
begin

unbundle bit_operations_syntax

section \<open>Errors and Python values\<close>

text \<open>
  Every \<^verbatim>\<open>raise\<close> of \<^verbatim>\<open>btclib/ec.py\<close> is a value: the exception class
  (\<^verbatim>\<open>TypeError\<close>, \<^verbatim>\<open>ValueError\<close>, \<^verbatim>\<open>UserWarning\<close>) applied to a tag that names
  the message of the raise site (the numbers formatted into the message are dropped).
\<close>

datatype reason =
    PointMustBeTuple        \<comment> \<open>"Point must be a tuple, not '%s'"\<close>
  | PointMustBePair         \<comment> \<open>"Point must be a tuple[int, int]"\<close>
  | YNotInRange             \<comment> \<open>"y-coordinate %X not in (0, p)"\<close>
  | PointNotOnCurve         \<comment> \<open>"Point not on curve"\<close>
  | XNotInRange             \<comment> \<open>"x-coordinate %X not in [0, p-1]"\<close>
  | BadOdd1Even0            \<comment> \<open>"odd1even0 must be bool or 0/1"\<close>
  | BadHigh1Low0            \<comment> \<open>"high1low0 must be bool or 0/1"\<close>
  | BadQuadRes              \<comment> \<open>"quadRes must be bool or 0/1"\<close>
  | PNotThreeModFour        \<comment> \<open>"this method works only when p = 3 (mod 4)"\<close>
  | PNotOdd                 \<comment> \<open>"p (%X) is not odd"\<close>
  | PNotPrime               \<comment> \<open>"p (%X) is not prime"\<close>
  | SecurityLevelNotAllowed \<comment> \<open>"required security level (%s) not in the allowed range %s"\<close>
  | NotEnoughBits           \<comment> \<open>"not enough bits (%s) for required security level %s"\<close>
  | InvalidA                \<comment> \<open>"invalid a (%X) for the given p (%X)"\<close>
  | InvalidB                \<comment> \<open>"invalid b (%X) for the given p (%X)"\<close>
  | ZeroDiscriminant        \<comment> \<open>"zero discriminant"\<close>
  | GeneratorNotPair        \<comment> \<open>"Generator must a be a Tuple[int, int]"\<close>
  | GeneratorNotOnCurve     \<comment> \<open>"Generator is not on the 'x^3 + a*x + b' curve"\<close>
  | NNotPrime               \<comment> \<open>"n (%X) is not prime"\<close>
  | NNotInHasseInterval     \<comment> \<open>"n (%X) not in [p+1 - delta, p+1 + delta]"\<close>
  | HNotAsExpected          \<comment> \<open>"h (%s) not as expected (%s)"\<close>
  | HTooBig                 \<comment> \<open>"h (%s) too big for t (%s)"\<close>
  | NNotGroupOrder          \<comment> \<open>"n (%X) is not the group order"\<close>
  | NEqualsP                \<comment> \<open>"n=p -> weak curve"\<close>
  | WeakCurve               \<comment> \<open>"weak curve"\<close>
  | NoInverse               \<comment> \<open>raised by \<^verbatim>\<open>mod_inv\<close>\<close>
  | NoSquareRoot            \<comment> \<open>raised by \<^verbatim>\<open>mod_sqrt\<close>\<close>

datatype exn = TypeError reason | ValueError reason | UserWarning reason

text \<open>
  The functions of the module are duck-typed: \<^verbatim>\<open>isOnCurve\<close> receives any Python value,
  asks whether it is a tuple and then for its length. A value is a tuple of integers of
  any length, or something that is not a tuple.
\<close>

datatype pyval = Tuple "int list" | NonTuple

type_synonym Point = "int \<times> int"
type_synonym JacPoint = "int \<times> int \<times> int"

text \<open>\<^verbatim>\<open>Point(x, y)\<close> seen as a Python value, and back (\<^verbatim>\<open>Q[0]\<close>, \<^verbatim>\<open>Q[1]\<close>; only
  applied to a value that \<^verbatim>\<open>isOnCurve\<close> has accepted as a pair).\<close>

definition Pt :: "Point \<Rightarrow> pyval" where
  "Pt Q = Tuple [fst Q, snd Q]"

fun as_point :: "pyval \<Rightarrow> Point" where
  "as_point (Tuple cs) = (cs ! 0, cs ! 1)"
| "as_point NonTuple = undefined"

text \<open>\<^verbatim>\<open>Point()\<close> and \<^verbatim>\<open>_JacPoint()\<close>: the defaults of the named tuples.\<close>

definition Point_default :: Point where
  "Point_default = (1, 0)"

definition JacPoint_default :: JacPoint where
  "JacPoint_default = (1, 1, 0)"

section \<open>Number theory helpers (\<^verbatim>\<open>btclib.numbertheory\<close>)\<close>

text \<open>
  Modelled from the spec: \<^verbatim>\<open>mod_inv\<close> of \<^verbatim>\<open>btclib/numbertheory.py\<close>, which is not among
  the sources. The spec: "mod_inv(a, m): extended Euclidean; fails with InvalidInput if
  gcd(a, m) \<noteq> 1". The inverse is the Bezout coefficient of \<open>a mod m\<close> computed by the
  extended Euclidean algorithm (\<^const>\<open>bezw\<close>), reduced into \<open>[0, m)\<close>.
\<close>

definition mod_inv :: "int \<Rightarrow> int \<Rightarrow> exn + int" where
  "mod_inv a m =
     (if gcd (a mod m) m \<noteq> 1 then Inl (ValueError NoInverse)
      else Inr (fst (bezw (nat (a mod m)) (nat m)) mod m))"

text \<open>
  Modelled from the spec: \<^verbatim>\<open>legendre_symbol\<close> of \<^verbatim>\<open>btclib/numbertheory.py\<close>, which is
  not among the sources. The spec: "legendre_symbol(a, p) = a^((p-1)/2) mod p".
\<close>

definition legendre_symbol :: "int \<Rightarrow> int \<Rightarrow> int" where
  "legendre_symbol a p = a ^ nat ((p - 1) div 2) mod p"

text \<open>
  Modelled from the spec: \<^verbatim>\<open>mod_sqrt\<close> of \<^verbatim>\<open>btclib/numbertheory.py\<close>, which is not
  among the sources. The spec: "mod_sqrt(a, p): Tonelli-Shanks. Fast path when
  p \<equiv> 3 (mod 4): return a^((p+1)/4) mod p; verify by squaring. Fails with NoSquareRoot
  when a is a non-residue." The spec gives the fast path in full and only names the
  general algorithm, so the general path is the parameter \<open>tonelli\<close>.
\<close>

definition mod_sqrt :: "(int \<Rightarrow> int \<Rightarrow> exn + int) \<Rightarrow> int \<Rightarrow> int \<Rightarrow> exn + int" where
  "mod_sqrt tonelli a p =
     (if p mod 4 = 3 then
        (let x = a ^ nat ((p + 1) div 4) mod p
         in if x * x mod p = a mod p then Inr x else Inl (ValueError NoSquareRoot))
      else tonelli a p)"

section \<open>The curve\<close>

record EC =
  ec_p :: int
  ec_a :: int
  ec_b :: int
  ec_G :: Point
  ec_n :: int
  ec_h :: int
  ec_t :: int
  bytesize :: int
  pIsThreeModFour :: bool

definition jac_from_aff :: "Point \<Rightarrow> JacPoint" where
  "jac_from_aff Q = (if snd Q = 0 then JacPoint_default else (fst Q, snd Q, 1))"

definition affine_from_jac :: "EC \<Rightarrow> JacPoint \<Rightarrow> exn + Point" where
  "affine_from_jac ec Q =
     (case Q of (X, Y, Z) \<Rightarrow>
        if Z = 0 then Inr Point_default
        else
          let Z2 = Z * Z in
          (case mod_inv Z2 (ec_p ec) of
             Inl e \<Rightarrow> Inl e
           | Inr i2 \<Rightarrow>
               let x = (X * i2) mod ec_p ec in
               (case mod_inv (Z2 * Z) (ec_p ec) of
                  Inl e \<Rightarrow> Inl e
                | Inr i3 \<Rightarrow> Inr (x, (Y * i3) mod ec_p ec))))"

definition addJacobian :: "EC \<Rightarrow> JacPoint \<Rightarrow> JacPoint \<Rightarrow> JacPoint" where
  "addJacobian ec Q R =
     (case Q of (QX, QY, QZ) \<Rightarrow> case R of (RX, RY, RZ) \<Rightarrow>
        if QZ = 0 then R
        else if RZ = 0 then Q
        else
          let p = ec_p ec;
              RZ2 = RZ * RZ; RZ3 = RZ2 * RZ;
              QZ2 = QZ * QZ; QZ3 = QZ2 * QZ
          in
          if QX * RZ2 mod p = RX * QZ2 mod p then
            if QY * RZ3 mod p = RY * QZ3 mod p then
              let QY2 = QY * QY;
                  W = (3 * QX * QX + ec_a ec * QZ2 * QZ2) mod p;
                  V = (4 * QX * QY2) mod p;
                  X = (W * W - 2 * V) mod p;
                  Y = (W * (V - X) - 8 * QY2 * QY2) mod p;
                  Z = (2 * QY * QZ) mod p
              in (X, Y, Z)
            else JacPoint_default
          else
            let T = (QY * RZ3) mod p;
                U = (RY * QZ3) mod p;
                W = (U - T) mod p;
                M = (QX * RZ2) mod p;
                N = (RX * QZ2) mod p;
                V = (N - M) mod p;
                V2 = V * V; V3 = V2 * V; MV2 = M * V2;
                X = (W * W - V3 - 2 * MV2) mod p;
                Y = (W * (MV2 - X) - T * V3) mod p;
                Z = (V * QZ * RZ) mod p
            in (X, Y, Z))"

definition addAffine :: "EC \<Rightarrow> Point \<Rightarrow> Point \<Rightarrow> exn + Point" where
  "addAffine ec Q R =
     (let p = ec_p ec in
      if snd R = 0 then Inr Q
      else if snd Q = 0 then Inr R
      else
        (case (if fst R = fst Q then
                 (if snd R = snd Q then
                    (case mod_inv (2 * snd Q) p of
                       Inl e \<Rightarrow> Inl e
                     | Inr i \<Rightarrow> Inr (Some (((3 * fst Q * fst Q + ec_a ec) * i) mod p)))
                  else Inr None)
               else
                 (case mod_inv (fst R - fst Q) p of
                    Inl e \<Rightarrow> Inl e
                  | Inr i \<Rightarrow> Inr (Some (((snd R - snd Q) * i) mod p)))) of
           Inl e \<Rightarrow> Inl e
         | Inr None \<Rightarrow> Inr Point_default
         | Inr (Some lam) \<Rightarrow>
             let x = (lam * lam - fst Q - fst R) mod p;
                 y = (lam * (fst Q - x) - snd Q) mod p
             in Inr (x, y)))"

definition y2 :: "EC \<Rightarrow> int \<Rightarrow> int" where
  "y2 ec x = ((x * x + ec_a ec) * x + ec_b ec) mod ec_p ec"

fun isOnCurve :: "EC \<Rightarrow> pyval \<Rightarrow> exn + bool" where
  "isOnCurve ec NonTuple = Inl (TypeError PointMustBeTuple)"
| "isOnCurve ec (Tuple cs) =
     (if length cs \<noteq> 2 then Inl (ValueError PointMustBePair)
      else if cs ! 1 = 0 then Inr True
      else if \<not> (0 < cs ! 1 \<and> cs ! 1 < ec_p ec) then Inl (ValueError YNotInRange)
      else Inr (y2 ec (cs ! 0) = (cs ! 1 * cs ! 1) mod ec_p ec))"

definition requireOnCurve :: "EC \<Rightarrow> pyval \<Rightarrow> exn + unit" where
  "requireOnCurve ec Q =
     (case isOnCurve ec Q of
        Inl e \<Rightarrow> Inl e
      | Inr ok \<Rightarrow> if \<not> ok then Inl (ValueError PointNotOnCurve) else Inr ())"


definition add :: "EC \<Rightarrow> pyval \<Rightarrow> pyval \<Rightarrow> exn + Point" where
  "add ec Q1 Q2 =
     (case requireOnCurve ec Q1 of
        Inl e \<Rightarrow> Inl e
      | Inr _ \<Rightarrow>
     (case requireOnCurve ec Q2 of
        Inl e \<Rightarrow> Inl e
      | Inr _ \<Rightarrow>
          let QJ1 = jac_from_aff (as_point Q1);
              QJ2 = jac_from_aff (as_point Q2);
              R = addJacobian ec QJ1 QJ2
          in affine_from_jac ec R))"

definition ec_y :: "(int \<Rightarrow> int \<Rightarrow> exn + int) \<Rightarrow> EC \<Rightarrow> int \<Rightarrow> exn + int" where
  "ec_y tonelli ec x =
     (if \<not> (0 \<le> x \<and> x < ec_p ec) then Inl (ValueError XNotInRange)
      else mod_sqrt tonelli (y2 ec x) (ec_p ec))"

definition yOdd :: "(int \<Rightarrow> int \<Rightarrow> exn + int) \<Rightarrow> EC \<Rightarrow> int \<Rightarrow> int \<Rightarrow> exn + int" where
  "yOdd tonelli ec x odd1even0 =
     (if odd1even0 \<noteq> 0 \<and> odd1even0 \<noteq> 1 then Inl (ValueError BadOdd1Even0)
      else (case ec_y tonelli ec x of
              Inl e \<Rightarrow> Inl e
            | Inr rt \<Rightarrow> Inr (if rt mod 2 = odd1even0 then rt else ec_p ec - rt)))"

definition yHigh :: "(int \<Rightarrow> int \<Rightarrow> exn + int) \<Rightarrow> EC \<Rightarrow> int \<Rightarrow> int \<Rightarrow> exn + int" where
  "yHigh tonelli ec x high1low0 =
     (if high1low0 \<noteq> 0 \<and> high1low0 \<noteq> 1 then Inl (ValueError BadHigh1Low0)
      else (case ec_y tonelli ec x of
              Inl e \<Rightarrow> Inl e
            | Inr rt \<Rightarrow>
                Inr (if (if ec_p ec div 2 < rt then 1 else 0) = high1low0 then rt
                     else ec_p ec - rt)))"

definition yQuadraticResidue ::
  "(int \<Rightarrow> int \<Rightarrow> exn + int) \<Rightarrow> EC \<Rightarrow> int \<Rightarrow> int \<Rightarrow> exn + int" where
  "yQuadraticResidue tonelli ec x quadRes =
     (if quadRes \<noteq> 0 \<and> quadRes \<noteq> 1 then Inl (ValueError BadQuadRes)
      else if \<not> pIsThreeModFour ec then Inl (ValueError PNotThreeModFour)
      else (case ec_y tonelli ec x of
              Inl e \<Rightarrow> Inl e
            | Inr rt \<Rightarrow>
                let legendre1 = legendre_symbol rt (ec_p ec)
                in Inr (if legendre1 = quadRes then rt else ec_p ec - rt)))"

section \<open>Scalar multiplication\<close>

text \<open>The \<^verbatim>\<open>while n > 0\<close> loop of \<^verbatim>\<open>_pointMultJacobian\<close>, on the state \<open>(n, Q, R)\<close>:
  \<^verbatim>\<open>n & 1\<close> is the parity of \<open>n\<close> and \<^verbatim>\<open>n >> 1\<close> is \<open>n div 2\<close>.\<close>

function pointMultJacobian_loop :: "EC \<Rightarrow> int \<Rightarrow> JacPoint \<Rightarrow> JacPoint \<Rightarrow> JacPoint" where
  "pointMultJacobian_loop ec n Q R =
     (if n > 0 then
        pointMultJacobian_loop ec (n div 2) (addJacobian ec Q Q)
          (if n mod 2 \<noteq> 0 then addJacobian ec R Q else R)
      else R)"
  by pat_completeness auto
termination
  by (relation "measure (\<lambda>(ec, n, Q, R). nat n)") auto

declare pointMultJacobian_loop.simps [simp del]

definition pointMultJacobian :: "EC \<Rightarrow> int \<Rightarrow> JacPoint \<Rightarrow> JacPoint" where
  "pointMultJacobian ec n Q =
     (if snd (snd Q) = 0 then JacPoint_default
      else pointMultJacobian_loop ec n Q JacPoint_default)"

definition pointMult :: "EC \<Rightarrow> int \<Rightarrow> pyval \<Rightarrow> exn + Point" where
  "pointMult ec n Q =
     (case requireOnCurve ec Q of
        Inl e \<Rightarrow> Inl e
      | Inr _ \<Rightarrow>
          let QJ = jac_from_aff (as_point Q);
              n' = n mod ec_n ec;
              R = pointMultJacobian ec n' QJ
          in affine_from_jac ec R)"

text \<open>\<^verbatim>\<open>int.bit_length()\<close>: the number of bits of the absolute value.\<close>

function bit_length :: "int \<Rightarrow> int" where
  "bit_length k = (if k = 0 then 0 else 1 + bit_length (\<bar>k\<bar> div 2))"
  by pat_completeness auto
termination
  by (relation "measure (\<lambda>k. nat \<bar>k\<bar>)") auto

declare bit_length.simps [simp del]

text \<open>The \<^verbatim>\<open>while msb > 0\<close> loop of \<^verbatim>\<open>DblScalarMult\<close>, on the state \<open>(R, u, v, msb)\<close>.
  The scalars are not negative there, so \<^verbatim>\<open>u >> (msb - 1)\<close> is
  \<open>u div 2 ^ (msb - 1)\<close>.\<close>

function DblScalarMult_loop ::
  "EC \<Rightarrow> JacPoint \<Rightarrow> JacPoint \<Rightarrow> JacPoint \<Rightarrow> int \<Rightarrow> int \<Rightarrow> int \<Rightarrow> JacPoint" where
  "DblScalarMult_loop ec QJ PJ R u v msb =
     (if msb > 0 then
        let (R1, u1) = (if u div 2 ^ nat (msb - 1) \<noteq> 0
                        then (addJacobian ec R QJ, u - 2 ^ nat (bit_length u - 1))
                        else (R, u));
            (R2, v1) = (if v div 2 ^ nat (msb - 1) \<noteq> 0
                        then (addJacobian ec R1 PJ, v - 2 ^ nat (bit_length v - 1))
                        else (R1, v));
            R3 = (if msb > 1 then addJacobian ec R2 R2 else R2)
        in DblScalarMult_loop ec QJ PJ R3 u1 v1 (msb - 1)
      else R)"
  by pat_completeness auto
termination
  by (relation "measure (\<lambda>(ec, QJ, PJ, R, u, v, msb). nat msb)") (auto split: if_splits)

declare DblScalarMult_loop.simps [simp del]

text \<open>\<^verbatim>\<open>_pointMultJacobian\<close> followed by \<^verbatim>\<open>_affine_from_jac\<close>, as the four short-circuit
  exits of \<^verbatim>\<open>DblScalarMult\<close> write it out.\<close>

definition DblScalarMult :: "EC \<Rightarrow> int \<Rightarrow> pyval \<Rightarrow> int \<Rightarrow> pyval \<Rightarrow> exn + Point" where
  "DblScalarMult ec u Q v P =
     (if u = 0 then
        (if v = 0 then Inr Point_default
         else (case requireOnCurve ec P of
                 Inl e \<Rightarrow> Inl e
               | Inr _ \<Rightarrow>
                   let PJ = jac_from_aff (as_point P);
                       v' = v mod ec_n ec;
                       R = pointMultJacobian ec v' PJ
                   in affine_from_jac ec R))
      else
        (case requireOnCurve ec Q of
           Inl e \<Rightarrow> Inl e
         | Inr _ \<Rightarrow>
             if snd (as_point Q) = 0 then
               (case requireOnCurve ec P of
                  Inl e \<Rightarrow> Inl e
                | Inr _ \<Rightarrow>
                    let PJ = jac_from_aff (as_point P);
                        v' = v mod ec_n ec;
                        R = pointMultJacobian ec v' PJ
                    in affine_from_jac ec R)
             else
               let u' = u mod ec_n ec;
                   QJ = jac_from_aff (as_point Q)
               in
               if v = 0 then affine_from_jac ec (pointMultJacobian ec u' QJ)
               else
                 (case requireOnCurve ec P of
                    Inl e \<Rightarrow> Inl e
                  | Inr _ \<Rightarrow>
                      if snd (as_point P) = 0 then
                        affine_from_jac ec (pointMultJacobian ec u' QJ)
                      else
                        let v' = v mod ec_n ec;
                            PJ = jac_from_aff (as_point P);
                            msb = max (bit_length u') (bit_length v');
                            R = DblScalarMult_loop ec QJ PJ JacPoint_default u' v' msb
                        in affine_from_jac ec R)))"

section \<open>Construction\<close>

text \<open>\<^verbatim>\<open>pow(2, k-1, k) == 1\<close>, the Fermat test to base 2 that \<^verbatim>\<open>__init__\<close> uses as
  primality test. For \<open>k \<le> 0\<close> both Python and this definition give a value other
  than 1.\<close>

definition fermat_test :: "int \<Rightarrow> bool" where
  "fermat_test k = (2 ^ nat (k - 1) mod k = 1)"

definition t_range :: "int list" where
  "t_range = [80, 96, 112, 128, 192, 256]"

text \<open>The dictionary \<^verbatim>\<open>required_bits\<close>; it is only read at a key of \<^verbatim>\<open>t_range\<close>.\<close>

definition required_bits :: "int \<Rightarrow> int" where
  "required_bits t =
     (if t = 80 then 192 else if t = 96 then 192 else if t = 112 then 224
      else if t = 128 then 256 else if t = 192 then 384 else 521)"

text \<open>The attributes \<^verbatim>\<open>__init__\<close> assigns; \<^verbatim>\<open>G\<close> is stored once it has been accepted as
  a pair.\<close>

definition mk_EC :: "int \<Rightarrow> int \<Rightarrow> int \<Rightarrow> int list \<Rightarrow> int \<Rightarrow> int \<Rightarrow> int \<Rightarrow> EC" where
  "mk_EC p a b G n h t =
     \<lparr> ec_p = p, ec_a = a, ec_b = b, ec_G = as_point (Tuple G), ec_n = n, ec_h = h,
       ec_t = t, bytesize = (bit_length p + 7) div 8, pIsThreeModFour = (p mod 4 = 3) \<rparr>"

text \<open>
  Three expressions of \<^verbatim>\<open>EC.__init__\<close> are computed in double-precision floating point:
  \<^verbatim>\<open>int(2 * sqrt(p))\<close>, \<^verbatim>\<open>int(pow(sqrt(p)+1, 2) // n)\<close> and the test
  \<^verbatim>\<open>h > pow(2, t/8)\<close>. Their values are not modelled: they are the three fields of a
  parameter of the constructor, and every statement about constructed curves holds
  whatever these functions are.
\<close>

record floats =
  delta_of :: "int \<Rightarrow> int"
  exp_h_of :: "int \<Rightarrow> int \<Rightarrow> int"
  h_exceeds :: "int \<Rightarrow> int \<Rightarrow> bool"

text \<open>
  \<^verbatim>\<open>EC.__init__\<close>. \<open>delta_of fl p\<close> stands for \<^verbatim>\<open>int(2 * sqrt(p))\<close>, \<open>exp_h_of fl p n\<close> for
  \<^verbatim>\<open>int(pow(sqrt(p)+1, 2) // n)\<close> and \<open>h_exceeds fl h t\<close> for \<^verbatim>\<open>h > pow(2, t/8)\<close>. The
  methods called during construction read only attributes that are already assigned
  at that point, so they are given the finished record.
\<close>

definition EC_init ::
  "floats \<Rightarrow> int \<Rightarrow> int \<Rightarrow> int \<Rightarrow> int list \<Rightarrow> int \<Rightarrow> int \<Rightarrow> int \<Rightarrow> bool \<Rightarrow> exn + EC"
  where
  "EC_init fl p a b G n h t all_checks =
     (let ec = mk_EC p a b G n h t in
      if p mod 2 = 0 then Inl (ValueError PNotOdd)
      else if \<not> fermat_test p then Inl (ValueError PNotPrime)
      else if t \<noteq> 0 \<and> all_checks \<and> t \<notin> set t_range
        then Inl (UserWarning SecurityLevelNotAllowed)
      else if t \<noteq> 0 \<and> all_checks \<and> bit_length p \<noteq> required_bits t
        then Inl (UserWarning NotEnoughBits)
      else if \<not> (0 \<le> a \<and> a < p) then Inl (ValueError InvalidA)
      else if \<not> (0 \<le> b \<and> b < p) then Inl (ValueError InvalidB)
      else if (4 * a * a * a + 27 * b * b) mod p = 0 then Inl (ValueError ZeroDiscriminant)
      else if length G \<noteq> 2 then Inl (ValueError GeneratorNotPair)
      else
        (case isOnCurve ec (Tuple G) of
           Inl e \<Rightarrow> Inl e
         | Inr ok \<Rightarrow>
      if \<not> ok then Inl (ValueError GeneratorNotOnCurve)
      else if n < 2 \<or> (n > 2 \<and> \<not> fermat_test n) then Inl (ValueError NNotPrime)
      else if all_checks \<and>
              \<not> (p + 1 - delta_of fl p \<le> n \<and> n \<le> p + 1 + delta_of fl p)
        then Inl (ValueError NNotInHasseInterval)
      else if h \<noteq> exp_h_of fl p n then Inl (ValueError HNotAsExpected)
      else if all_checks \<and> t \<noteq> 0 \<and> h_exceeds fl h t
        then Inl (ValueError HTooBig)
      else
        (case pointMult ec (n - 1) (Pt (ec_G ec)) of
           Inl e \<Rightarrow> Inl e
         | Inr InfMinusG \<Rightarrow>
        (case add ec (Pt InfMinusG) (Pt (ec_G ec)) of
           Inl e \<Rightarrow> Inl e
         | Inr Inf0 \<Rightarrow>
      if snd Inf0 \<noteq> 0 then Inl (ValueError NNotGroupOrder)
      else if n = p then Inl (UserWarning NEqualsP)
      else if all_checks \<and> list_ex (\<lambda>i. p ^ i mod n = 1) [1..<100]
        then Inl (UserWarning WeakCurve)
      else Inr ec))))"

section \<open>The constructor's checks in the words of the specification\<close>

text \<open>Check 7 of the constructor, \<open>(n-1)G + G = \<infinity>\<close>: both calls return and the sum has
  \<open>y = 0\<close>.\<close>

definition order_check :: "EC \<Rightarrow> bool" where
  "order_check ec =
     (case pointMult ec (ec_n ec - 1) (Pt (ec_G ec)) of
        Inl e \<Rightarrow> False
      | Inr M \<Rightarrow> (case add ec (Pt M) (Pt (ec_G ec)) of Inl e \<Rightarrow> False | Inr I \<Rightarrow> snd I = 0))"

text \<open>The checks that the specification lists as kept when \<open>all_checks = false\<close>: p odd
  (probable) prime, a and b in range, non-zero discriminant, G on curve, n (probable)
  prime, cofactor as expected, \<open>(n-1)G + G = \<infinity>\<close>, \<open>n \<noteq> p\<close>.\<close>

definition spec_enforced_checks ::
  "floats \<Rightarrow> int \<Rightarrow> int \<Rightarrow> int \<Rightarrow> int list \<Rightarrow> int \<Rightarrow> int \<Rightarrow> int \<Rightarrow> bool" where
  "spec_enforced_checks fl p a b G n h t =
     (p mod 2 \<noteq> 0 \<and> fermat_test p
      \<and> 0 \<le> a \<and> a < p \<and> 0 \<le> b \<and> b < p
      \<and> (4 * a * a * a + 27 * b * b) mod p \<noteq> 0
      \<and> length G = 2 \<and> isOnCurve (mk_EC p a b G n h t) (Tuple G) = Inr True
      \<and> 2 \<le> n \<and> (n = 2 \<or> fermat_test n)
      \<and> h = exp_h_of fl p n
      \<and> order_check (mk_EC p a b G n h t)
      \<and> n \<noteq> p)"

text \<open>The checks that the specification lists as skipped when \<open>all_checks = false\<close>: the
  security level \<open>t\<close> (allowed value, bit length of p, size of h), the Hasse bound on n,
  and \<open>p^i mod n \<noteq> 1\<close> for \<open>1 \<le> i < 100\<close>.\<close>

definition spec_skipped_checks :: "floats \<Rightarrow> int \<Rightarrow> int \<Rightarrow> int \<Rightarrow> int \<Rightarrow> bool" where
  "spec_skipped_checks fl p n h t =
     ((t = 0 \<or> (t \<in> set t_range \<and> bit_length p = required_bits t
                \<and> \<not> h_exceeds fl h t))
      \<and> p + 1 - delta_of fl p \<le> n \<and> n \<le> p + 1 + delta_of fl p
      \<and> \<not> list_ex (\<lambda>i. p ^ i mod n = 1) [1..<100])"

section \<open>Small curves\<close>

text \<open>The values that the three floating-point expressions take in Python at the
  curves over \<open>F\<^sub>5\<close> and \<open>F\<^sub>7\<close> of this section: \<^verbatim>\<open>int(2 * sqrt(5)) = 4\<close>,
  \<^verbatim>\<open>int(2 * sqrt(7)) = 5\<close>, \<^verbatim>\<open>int(pow(sqrt(5)+1, 2) // 3) = 3\<close>,
  \<^verbatim>\<open>int(pow(sqrt(5)+1, 2) // 7) = 1\<close> and \<^verbatim>\<open>int(pow(sqrt(7)+1, 2) // 3) = 4\<close>. For \<open>t\<close> in
  \<^const>\<open>t_range\<close> the quotient \<^verbatim>\<open>t/8\<close> is a whole number and the power of two is exact. The
  table says nothing at other arguments.\<close>

definition small_floats :: floats where
  "small_floats =
     \<lparr> delta_of = (\<lambda>p. if p = 5 then 4 else if p = 7 then 5 else undefined),
       exp_h_of = (\<lambda>p n. if p = 5 \<and> n = 3 then 3 else if p = 5 \<and> n = 7 then 1
                          else if p = 7 \<and> n = 3 then 4 else undefined),
       h_exceeds = (\<lambda>h t. h > 2 ^ nat (t div 8)) \<rparr>"

text \<open>\<open>y\<^sup>2 = x\<^sup>3 + 1\<close> over \<open>F\<^sub>5\<close>: six points, among them \<open>(4, 0)\<close>. The generator
  \<open>(0, 1)\<close> has order 3.\<close>

definition curve5 :: EC where
  "curve5 = mk_EC 5 0 1 [0, 1] 3 3 0"

definition is_TypeError :: "exn + 'a \<Rightarrow> bool" where
  "is_TypeError r = (case r of Inl (TypeError m) \<Rightarrow> True | _ \<Rightarrow> False)"

text \<open>\<open>y\<^sup>2 = x\<^sup>3 + 5 x + 1\<close> over \<open>F\<^sub>7\<close>: twelve points, among them \<open>(1, 0)\<close>; \<open>(0, 1)\<close> has
  order 4 and the generator \<open>(3, 1)\<close> has order 3.\<close>

definition curve7 :: EC where
  "curve7 = mk_EC 7 5 1 [3, 1] 3 4 0"

section \<open>Primes and quadratic residues\<close>

definition is_prime :: "int \<Rightarrow> bool" where
  "is_prime p = (1 < p \<and> (\<forall>m\<in>{2..<p}. \<not> m dvd p))"

text \<open>\<open>a\<close> is a quadratic residue modulo \<open>p\<close>: the square of a unit, so that its Legendre
  symbol is 1 (zero is neither a residue nor a non-residue).\<close>

definition quadratic_residue :: "int \<Rightarrow> int \<Rightarrow> bool" where
  "quadratic_residue p a = (\<exists>c\<in>{1..<p}. c * c mod p = a mod p)"

text \<open>What the general path of \<^verbatim>\<open>mod_sqrt\<close> owes its callers for the modulus \<open>p\<close>: for
  every square \<open>a\<close> in \<open>[0, p)\<close> it returns a root of \<open>a\<close> in \<open>[0, p)\<close>.\<close>

definition sqrt_contract :: "(int \<Rightarrow> int \<Rightarrow> exn + int) \<Rightarrow> int \<Rightarrow> bool" where
  "sqrt_contract tonelli p =
     (\<forall>a\<in>{0..<p}. (\<exists>c\<in>{0..<p}. c * c mod p = a)
        \<longrightarrow> (\<exists>r\<in>{0..<p}. tonelli a p = Inr r \<and> r * r mod p = a))"

text \<open>A general path that finds no root; the curves over \<open>F\<^sub>7\<close> never reach it.\<close>

definition no_tonelli :: "int \<Rightarrow> int \<Rightarrow> exn + int" where
  "no_tonelli a p = Inl (ValueError NoSquareRoot)"

text \<open>A general path that finds the least root by exhaustive search: a stand-in that
  meets \<^const>\<open>sqrt_contract\<close>, used to run the curves over \<open>F\<^sub>5\<close>.\<close>

definition search_sqrt :: "int \<Rightarrow> int \<Rightarrow> exn + int" where
  "search_sqrt a p =
     (case find (\<lambda>r. r * r mod p = a mod p) [0..p - 1] of
        None \<Rightarrow> Inl (ValueError NoSquareRoot)
      | Some r \<Rightarrow> Inr r)"

text \<open>An affine point of the data model: both coordinates in \<open>[0, p - 1]\<close>.\<close>

definition affine_point :: "EC \<Rightarrow> Point \<Rightarrow> bool" where
  "affine_point ec Q = (0 \<le> fst Q \<and> fst Q < ec_p ec \<and> 0 \<le> snd Q \<and> snd Q < ec_p ec)"




section \<open>Evaluation at small curves\<close>

lemma curve5_enforced: "spec_enforced_checks small_floats 5 0 1 [0, 1] 3 3 0"
proof -
  have f5: "fermat_test 5" by code_simp
  have f3: "fermat_test 3" by code_simp
  have oc: "isOnCurve (mk_EC 5 0 1 [0, 1] 3 3 0) (Tuple [0, 1]) = Inr True" by code_simp
  have ord: "order_check (mk_EC 5 0 1 [0, 1] 3 3 0)" by code_simp
  show ?thesis
    unfolding spec_enforced_checks_def using f5 f3 oc ord by (simp add: small_floats_def)
qed

section \<open>The constructor\<close>

lemma if_InlE:
  "(if c then Inl e else r) = Inr v \<Longrightarrow> (\<not> c \<Longrightarrow> r = Inr v \<Longrightarrow> P) \<Longrightarrow> P"
  by (cases c) simp_all

lemma case_InlE:
  "(case s of Inl e \<Rightarrow> Inl e | Inr x \<Rightarrow> f x) = Inr v
   \<Longrightarrow> (\<And>x. s = Inr x \<Longrightarrow> f x = Inr v \<Longrightarrow> P) \<Longrightarrow> P"
  by (cases s) simp_all

lemma mk_EC_sel [simp]:
  "ec_n (mk_EC p a b G n h t) = n" "ec_p (mk_EC p a b G n h t) = p"
  "ec_a (mk_EC p a b G n h t) = a" "ec_b (mk_EC p a b G n h t) = b"
  "ec_G (mk_EC p a b G n h t) = as_point (Tuple G)"
  "pIsThreeModFour (mk_EC p a b G n h t) = (p mod 4 = 3)"
  by (simp_all add: mk_EC_def)

lemma EC_init_False_D:
  assumes "EC_init fl p a b G n h t False = Inr ec"
  shows "spec_enforced_checks fl p a b G n h t \<and> ec = mk_EC p a b G n h t"
  using assms unfolding EC_init_def Let_def
  apply (elim if_InlE case_InlE)
  apply clarify
  apply (simp del: upt_rec_numeral isOnCurve.simps
      add: spec_enforced_checks_def order_check_def)
  done

lemma EC_init_True_D:
  assumes "EC_init fl p a b G n h t True = Inr ec"
  shows "spec_enforced_checks fl p a b G n h t \<and> spec_skipped_checks fl p n h t
         \<and> ec = mk_EC p a b G n h t"
  using assms unfolding EC_init_def Let_def
  apply (elim if_InlE case_InlE)
  apply clarify
  apply (simp del: upt_rec_numeral isOnCurve.simps
      add: spec_enforced_checks_def spec_skipped_checks_def order_check_def)
  apply linarith?
  done

lemma EC_init_I:
  assumes "spec_enforced_checks fl p a b G n h t"
    and "all_checks \<longrightarrow> spec_skipped_checks fl p n h t"
  shows "EC_init fl p a b G n h t all_checks = Inr (mk_EC p a b G n h t)"
proof -
  obtain M where M: "pointMult (mk_EC p a b G n h t) (n - 1) (Pt (as_point (Tuple G))) = Inr M"
    using assms(1) unfolding spec_enforced_checks_def order_check_def
    by (auto split: sum.splits)
  obtain I where I: "add (mk_EC p a b G n h t) (Pt M) (Pt (as_point (Tuple G))) = Inr I" "snd I = 0"
    using assms(1) M unfolding spec_enforced_checks_def order_check_def
    by (auto split: sum.splits)
  show ?thesis
    using assms M I unfolding EC_init_def Let_def spec_enforced_checks_def spec_skipped_checks_def
    by (cases all_checks) (auto simp del: upt_rec_numeral isOnCurve.simps)
qed

lemma EC_init_D:
  assumes "EC_init fl p a b G n h t all_checks = Inr ec"
  shows "spec_enforced_checks fl p a b G n h t" "ec = mk_EC p a b G n h t"
  using assms EC_init_False_D [of fl p a b G n h t ec] EC_init_True_D [of fl p a b G n h t ec]
  by (cases all_checks; simp)+

lemma curve7_enforced: "spec_enforced_checks small_floats 7 5 1 [3, 1] 3 4 0"
proof -
  have f7: "fermat_test 7" by code_simp
  have f3: "fermat_test 3" by code_simp
  have oc: "isOnCurve (mk_EC 7 5 1 [3, 1] 3 4 0) (Tuple [3, 1]) = Inr True" by code_simp
  have ord: "order_check (mk_EC 7 5 1 [3, 1] 3 4 0)" by code_simp
  show ?thesis
    unfolding spec_enforced_checks_def using f7 f3 oc ord by (simp add: small_floats_def)
qed

lemma curve7_init: "EC_init small_floats 7 5 1 [3, 1] 3 4 0 False = Inr curve7"
  unfolding curve7_def by (rule EC_init_I) (simp_all add: curve7_enforced)

lemma curve5_init: "EC_init small_floats 5 0 1 [0, 1] 3 3 0 False = Inr curve5"
  unfolding curve5_def by (rule EC_init_I) (simp_all add: curve5_enforced)



section \<open>Membership\<close>

lemma cubic_mod_cong:
  "((x::int) mod p * (x mod p) + a) * (x mod p) mod p = ((x * x + a) * x) mod p"
proof -
  have "(x mod p * (x mod p)) mod p = (x * x) mod p"
    by (simp add: mod_mult_eq)
  then have "(x mod p * (x mod p) + a) mod p = (x * x + a) mod p"
    by (rule mod_add_cong) simp
  then show ?thesis
    by (rule mod_mult_cong) simp
qed

lemma y2_mod: "y2 ec (x mod ec_p ec) = y2 ec x"
  unfolding y2_def using cubic_mod_cong [of x "ec_p ec" "ec_a ec"] by (metis mod_add_cong)

lemma y2_cubic: "y2 ec x = (x ^ 3 + ec_a ec * x + ec_b ec) mod ec_p ec"
  by (simp add: y2_def power3_eq_cube algebra_simps)

text \<open>
  Claim C4, as amended. \<^verbatim>\<open>isOnCurve\<close> raises \<^verbatim>\<open>TypeError\<close> for a value that is not a
  tuple and \<^verbatim>\<open>ValueError\<close> (the class of its invalid-input errors) for a tuple whose
  length is not two. For a pair \<open>(x, y)\<close> it returns true when \<open>y = 0\<close>, raises
  \<^verbatim>\<open>ValueError\<close> when \<open>y \<noteq> 0\<close> lies outside the open interval \<open>(0, p)\<close>, and otherwise returns
  true iff \<open>y\<^sup>2\<close> and \<open>x\<^sup>3 + a x + b\<close> are congruent modulo \<open>p\<close>.
\<close>

theorem isOnCurve_cases:
  "isOnCurve ec NonTuple = Inl (TypeError PointMustBeTuple)
   \<and> (length cs \<noteq> 2 \<longrightarrow> isOnCurve ec (Tuple cs) = Inl (ValueError PointMustBePair))
   \<and> isOnCurve ec (Tuple [x, 0]) = Inr True
   \<and> (y \<noteq> 0 \<and> \<not> (0 < y \<and> y < ec_p ec)
        \<longrightarrow> isOnCurve ec (Tuple [x, y]) = Inl (ValueError YNotInRange))
   \<and> (0 < y \<and> y < ec_p ec
        \<longrightarrow> isOnCurve ec (Tuple [x, y])
            = Inr (y\<^sup>2 mod ec_p ec = (x ^ 3 + ec_a ec * x + ec_b ec) mod ec_p ec))"
  by (auto simp: y2_cubic power2_eq_square)

theorem isOnCurve_cases_witness:
  "length [1, 2, 3 :: int] \<noteq> 2
   \<and> isOnCurve curve5 (Tuple [1, 2, 3]) = Inl (ValueError PointMustBePair)
   \<and> (7::int) \<noteq> 0 \<and> \<not> (0 < (7::int) \<and> 7 < ec_p curve5)
   \<and> isOnCurve curve5 (Tuple [2, 7]) = Inl (ValueError YNotInRange)
   \<and> 0 < (3::int) \<and> 3 < ec_p curve5
   \<and> isOnCurve curve5 (Tuple [2, 3]) = Inr True"
  using isOnCurve_cases [of curve5 "[1, 2, 3]" 2 7] isOnCurve_cases [of curve5 "[]" 2 3]
  by (simp add: curve5_def mk_EC_def)

text \<open>
  Claim C4 as stated fails: a tuple of three coordinates does not have exactly two, and
  \<^verbatim>\<open>isOnCurve\<close> raises \<^verbatim>\<open>ValueError\<close> for it, not a type error.
\<close>

theorem isOnCurve_triple_counterexample:
  "isOnCurve curve5 (Tuple [1, 2, 3]) = Inl (ValueError PointMustBePair)
   \<and> \<not> is_TypeError (isOnCurve curve5 (Tuple [1, 2, 3]))"
  by (simp add: is_TypeError_def)

text \<open>
  Claim C9. \<^verbatim>\<open>isOnCurve\<close> never range-checks the x-coordinate: for every integer \<open>x\<close> and
  every \<open>y\<close> with \<open>0 < y < p\<close>, the answer for \<open>(x, y)\<close> is the answer for \<open>(x mod p, y)\<close>.
\<close>

theorem isOnCurve_x_mod:
  "0 < y \<Longrightarrow> y < ec_p ec \<Longrightarrow>
   isOnCurve ec (Tuple [x, y]) = isOnCurve ec (Tuple [x mod ec_p ec, y])"
  by (simp add: y2_mod)

theorem isOnCurve_x_mod_witness:
  "0 < (1::int) \<and> 1 < ec_p curve5
   \<and> isOnCurve curve5 (Tuple [5, 1]) = Inr True
   \<and> isOnCurve curve5 (Tuple [- 5, 1]) = Inr True"
proof -
  have p: "ec_p curve5 = 5" by (simp add: curve5_def mk_EC_def)
  have b: "0 < (1::int)" "(1::int) < ec_p curve5" by (simp_all add: p)
  have z: "isOnCurve curve5 (Tuple [0, 1]) = Inr True" by code_simp
  show ?thesis
    using isOnCurve_x_mod [OF b, of 5] isOnCurve_x_mod [OF b, of "- 5"] z b
    by (simp add: p)
qed

section \<open>Primes, Fermat's little theorem and square roots\<close>

lemma is_prime_coprime:
  assumes "is_prime p" "\<not> p dvd a"
  shows "coprime p a"
proof -
  let ?g = "gcd p a"
  have g: "?g dvd p" "?g dvd a" "0 \<le> ?g" by simp_all
  have p: "1 < p" using assms(1) by (simp add: is_prime_def)
  have "?g \<noteq> 0" using p by auto
  then have "0 < ?g" using g(3) by linarith
  moreover have "?g \<le> p" using g(1) p by (intro zdvd_imp_le) auto
  moreover have "?g \<noteq> p" using g(2) assms(2) by metis
  moreover have "\<not> (2 \<le> ?g \<and> ?g < p)" using assms(1) g(1) by (auto simp: is_prime_def)
  ultimately have "?g = 1" by linarith
  then show ?thesis by (simp add: coprime_iff_gcd_eq_1)
qed

lemma is_prime_dvd_mult:
  assumes "is_prime p" "p dvd a * b"
  shows "p dvd a \<or> p dvd b"
  using assms is_prime_coprime coprime_dvd_mult_right_iff by blast

lemma is_prime_dvd_choose:
  assumes "is_prime (int p)" "0 < k" "k < p"
  shows "p dvd (p choose k)"
proof -
  have "k * (p choose k) = p * ((p - 1) choose (k - 1))"
    using assms(2) by (rule times_binomial_minus1_eq)
  then have "int p dvd int k * int (p choose k)"
    by (metis dvd_triv_left of_nat_mult)
  moreover have "\<not> int p dvd int k" using assms(2,3) by (auto dest: zdvd_imp_le)
  ultimately have "int p dvd int (p choose k)"
    using is_prime_dvd_mult [OF assms(1)] by blast
  then show ?thesis by simp
qed

lemma fermat_step:
  assumes "is_prime (int p)"
  shows "((a + 1) ^ p) mod p = (a ^ p + 1) mod (p::nat)"
proof -
  have p: "1 < p" using assms by (simp add: is_prime_def)
  have "(a + 1) ^ p = (\<Sum>k\<le>p. (p choose k) * a ^ k)"
    using binomial [of a 1 p] by simp
  also have "{..p} = insert 0 (insert p {1..<p})" using p by auto
  also have "(\<Sum>k\<in>insert 0 (insert p {1..<p}). (p choose k) * a ^ k)
      = 1 + (a ^ p + (\<Sum>k\<in>{1..<p}. (p choose k) * a ^ k))"
    using p by simp
  finally have e: "(a + 1) ^ p = (a ^ p + 1) + (\<Sum>k\<in>{1..<p}. (p choose k) * a ^ k)" by simp
  have "p dvd (\<Sum>k\<in>{1..<p}. (p choose k) * a ^ k)"
    by (rule dvd_sum) (auto intro!: dvd_mult2 is_prime_dvd_choose assms)
  then show ?thesis unfolding e by (metis dvd_div_mult_self mod_mult_self1)
qed

lemma fermat_nat:
  assumes "is_prime (int p)"
  shows "a ^ p mod p = a mod (p::nat)"
proof (induction a)
  case 0
  have "0 < p" using assms by (simp add: is_prime_def)
  then show ?case by (simp add: zero_power)
next
  case (Suc a)
  have "(Suc a) ^ p mod p = (a ^ p + 1) mod p"
    using fermat_step [OF assms, of a] by simp
  also have "\<dots> = (a + 1) mod p" using Suc.IH by (metis mod_add_left_eq)
  finally show ?case by simp
qed

lemma fermat_int_p:
  assumes "is_prime p"
  shows "a ^ nat p mod p = a mod p"
proof -
  have p: "1 < p" using assms by (simp add: is_prime_def)
  define r where "r = nat (a mod p)"
  have r: "int r = a mod p" using p by (simp add: r_def)
  have pp: "is_prime (int (nat p))" using assms p by simp
  have "a ^ nat p mod p = (a mod p) ^ nat p mod p" by (simp add: power_mod)
  also have "\<dots> = int (r ^ nat p mod nat p)" using p r by (simp add: zmod_int)
  also have "\<dots> = int (r mod nat p)" using fermat_nat [OF pp] by simp
  also have "\<dots> = a mod p" using p r by (simp add: zmod_int)
  finally show ?thesis .
qed

lemma fermat_little:
  assumes "is_prime p" "\<not> p dvd a"
  shows "a ^ nat (p - 1) mod p = 1"
proof -
  have p: "1 < p" using assms by (simp add: is_prime_def)
  have "nat p = Suc (nat (p - 1))" using p by simp
  then have "a ^ nat p = a * a ^ nat (p - 1)" by simp
  then have "p dvd a * a ^ nat (p - 1) - a"
    using fermat_int_p [OF assms(1), of a] by (simp add: mod_eq_dvd_iff)
  then have "p dvd a * (a ^ nat (p - 1) - 1)" by (simp add: algebra_simps)
  then have "p dvd a ^ nat (p - 1) - 1"
    using is_prime_dvd_mult [OF assms(1)] assms(2) by blast
  then have "a ^ nat (p - 1) mod p = 1 mod p" by (simp add: mod_eq_dvd_iff)
  then show ?thesis using p by simp
qed

lemma three_mod_four_sqrt:
  assumes "is_prime p" "p mod 4 = 3" "\<not> p dvd c" "a mod p = c * c mod p"
  defines "r \<equiv> a ^ nat ((p + 1) div 4) mod p"
  shows "r * r mod p = a mod p" and "r ^ nat ((p - 1) div 2) mod p = 1"
    and "(p - r) ^ nat ((p - 1) div 2) mod p = p - 1" and "0 < r" and "r < p"
proof -
  have p: "1 < p" using assms(1) by (simp add: is_prime_def)
  define k where "k = nat (p div 4)"
  have pk: "p = 4 * int k + 3" using p assms(2) by (simp add: k_def) presburger
  have e1: "nat ((p + 1) div 4) = k + 1" using pk by simp
  have e2: "nat ((p - 1) div 2) = 2 * k + 1" using pk by simp
  have e3: "nat (p - 1) = 4 * k + 2" using pk by simp
  have f: "c ^ (4 * k + 2) mod p = 1" using fermat_little [OF assms(1,3)] e3 by simp
  have ra: "r = (c * c) ^ (k + 1) mod p"
    unfolding r_def e1 using assms(4) by (metis power_mod)
  have sq: "(c * c) ^ (k + 1) = c ^ (2 * (k + 1))"
    by (simp only: power2_eq_square [symmetric] power_mult)
  have x2: "c ^ (2 * (k + 1)) * c ^ (2 * (k + 1)) = c ^ ((4 * k + 2) + 2)"
    by (simp add: power_add [symmetric])
  have x3: "(c ^ (2 * (k + 1))) ^ (2 * k + 1) = c ^ (2 * (k + 1) * (2 * k + 1))"
    by (simp only: power_mult)
  have x4: "(c ^ (4 * k + 2)) ^ (k + 1) = c ^ ((4 * k + 2) * (k + 1))"
    by (simp only: power_mult)
  have x5: "2 * (k + 1) * (2 * k + 1) = (4 * k + 2) * (k + 1)" by (simp add: algebra_simps)
  have "r * r mod p = ((c * c) ^ (k + 1) * (c * c) ^ (k + 1)) mod p"
    unfolding ra by (simp add: mod_mult_eq)
  also have "(c * c) ^ (k + 1) * (c * c) ^ (k + 1) = c ^ (4 * k + 2) * (c * c)"
    unfolding sq by (simp only: x2 power_add power2_eq_square)
  also have "(c ^ (4 * k + 2) * (c * c)) mod p = (1 * (c * c)) mod p"
    using f by (metis mod_mult_left_eq)
  finally show rr: "r * r mod p = a mod p" using assms(4) by simp
  have "r ^ (2 * k + 1) mod p = ((c * c) ^ (k + 1)) ^ (2 * k + 1) mod p"
    unfolding ra by (rule power_mod)
  also have "((c * c) ^ (k + 1)) ^ (2 * k + 1) = (c ^ (4 * k + 2)) ^ (k + 1)"
    unfolding sq x3 x4 by (simp only: x5)
  also have "(c ^ (4 * k + 2)) ^ (k + 1) mod p = 1 ^ (k + 1) mod p"
    using f by (metis power_mod)
  finally have l: "r ^ (2 * k + 1) mod p = 1" using p by simp
  then show "r ^ nat ((p - 1) div 2) mod p = 1" unfolding e2 .
  have "(p - r) ^ (2 * k + 1) mod p = (- r) ^ (2 * k + 1) mod p"
    by (metis power_mod mod_diff_left_eq mod_self diff_0)
  also have "(- r) ^ (2 * k + 1) = - (r ^ (2 * k + 1))" by simp
  also have "(- (r ^ (2 * k + 1))) mod p = (- 1) mod p"
    using l by (metis mod_minus_cong mod_mod_trivial)
  also have "(- 1) mod p = p - 1" using p by (simp add: zmod_minus1)
  finally show "(p - r) ^ nat ((p - 1) div 2) mod p = p - 1" unfolding e2 .
  have rb: "0 \<le> r" "r < p" using p by (simp_all add: r_def)
  show "r < p" by fact
  have "r \<noteq> 0"
  proof
    assume "r = 0"
    then have "c * c mod p = 0" using rr assms(4) by simp
    then have "p dvd c * c" by (simp add: dvd_eq_mod_eq_0)
    then show False using is_prime_dvd_mult [OF assms(1)] assms(3) by blast
  qed
  then show "0 < r" using rb(1) by linarith
qed

lemma is_prime_sqrt_pm:
  assumes "is_prime p" "r * r mod p = y * y mod p" "0 \<le> r" "r < p" "0 < y" "y < p"
  shows "r = y \<or> r = p - y"
proof -
  have "p dvd r * r - y * y" using assms(2) by (simp add: mod_eq_dvd_iff)
  also have "r * r - y * y = (r - y) * (r + y)" by (simp add: algebra_simps)
  finally have "p dvd r - y \<or> p dvd r + y" using is_prime_dvd_mult [OF assms(1)] by blast
  then show ?thesis
  proof
    assume d: "p dvd r - y"
    then obtain k where k: "r - y = p * k" by (auto simp: dvd_def)
    have pp: "0 < p" using assms(3,4) by linarith
    have "p * (- 1) < p * k" "p * k < p * 1" using k assms(3-6) by linarith+
    then have "- 1 < k" "k < 1" using pp by (simp_all only: mult_less_cancel_left_pos)
    then have "k = 0" by linarith
    then show ?thesis using k by simp
  next
    assume d: "p dvd r + y"
    then obtain k where k: "r + y = p * k" by (auto simp: dvd_def)
    have pp: "0 < p" using assms(3,4) by linarith
    have "p * 0 < p * k" "p * k < p * 2" using k assms(3-6) by linarith+
    then have "0 < k" "k < 2" using pp by (simp_all only: mult_less_cancel_left_pos)
    then have "k = 1" by linarith
    then show ?thesis using k by simp
  qed
qed

lemma mod_inv_Inr:
  assumes "1 < m" "gcd (a mod m) m = 1"
  shows "\<exists>i. mod_inv a m = Inr i \<and> 0 \<le> i \<and> i < m \<and> a * i mod m = 1"
proof -
  let ?x = "nat (a mod m)" and ?y = "nat m"
  let ?f = "fst (bezw ?x ?y)"
  have "int (gcd ?x ?y) = ?f * int ?x + snd (bezw ?x ?y) * int ?y" by (rule bezw_aux)
  moreover have "int ?x = a mod m" "int ?y = m" using assms(1) by simp_all
  moreover have "int (gcd ?x ?y) = gcd (a mod m) m"
    using assms(1) by (simp add: gcd_int_def)
  ultimately have e: "?f * (a mod m) + snd (bezw ?x ?y) * m = 1" using assms(2) by simp
  have "(?f * (a mod m) + snd (bezw ?x ?y) * m) mod m = (?f * a) mod m"
    by (simp add: mod_mult_right_eq)
  then have "(?f * a) mod m = 1" using e assms(1) by simp
  then have "a * (?f mod m) mod m = 1" by (simp add: mod_mult_right_eq mult.commute)
  then show ?thesis using assms by (simp add: mod_inv_def)
qed

section \<open>Recovery of the y-coordinate\<close>

lemma is_prime_7: "is_prime 7" by code_simp
lemma is_prime_5: "is_prime 5" by code_simp

lemma y2_range: "0 < ec_p ec \<Longrightarrow> 0 \<le> y2 ec x \<and> y2 ec x < ec_p ec"
  by (simp add: y2_def)

lemma mod_sqrt_fast:
  assumes "is_prime p" "p mod 4 = 3" "\<not> p dvd c" "a mod p = c * c mod p"
  shows "mod_sqrt tonelli a p = Inr (a ^ nat ((p + 1) div 4) mod p)"
  using three_mod_four_sqrt(1) [OF assms] assms(2) by (simp add: mod_sqrt_def Let_def)

text \<open>
  Claim C1. On a constructed curve whose \<open>p\<close> is prime and 3 modulo 4, for every \<open>x\<close> in
  \<open>[0, p)\<close> whose right-hand side \<open>x\<^sup>3 + a x + b\<close> is a quadratic residue and every
  \<open>want_qr\<close> in \<open>{0, 1}\<close>, \<^verbatim>\<open>yQuadraticResidue\<close> returns a square root of the right-hand
  side whose Legendre symbol, with \<open>p - 1\<close> read as 0, is \<open>want_qr\<close>. When \<open>p\<close> is not
  3 modulo 4 it fails with the unsupported-prime error.
\<close>

theorem yQuadraticResidue_correct:
  assumes "EC_init fl p a b G n h t all_checks = Inr ec" and "is_prime p"
    and "want_qr = 0 \<or> want_qr = 1"
  shows "(p mod 4 = 3 \<and> 0 \<le> x \<and> x < p \<and> quadratic_residue p (x ^ 3 + a * x + b) \<longrightarrow>
           (\<exists>r. yQuadraticResidue tonelli ec x want_qr = Inr r
              \<and> r * r mod p = (x ^ 3 + a * x + b) mod p
              \<and> (if legendre_symbol r p = p - 1 then 0 else legendre_symbol r p) = want_qr))
       \<and> (p mod 4 \<noteq> 3 \<longrightarrow>
           yQuadraticResidue tonelli ec x want_qr = Inl (ValueError PNotThreeModFour))"
proof (intro conjI impI)
  have ec: "ec = mk_EC p a b G n h t" using EC_init_D(2) [OF assms(1)] .
  have p1: "1 < p" using assms(2) by (simp add: is_prime_def)
  {
    assume "p mod 4 \<noteq> 3"
    then show "yQuadraticResidue tonelli ec x want_qr = Inl (ValueError PNotThreeModFour)"
      using assms(3) by (auto simp: yQuadraticResidue_def ec)
  }
  assume h: "p mod 4 = 3 \<and> 0 \<le> x \<and> x < p \<and> quadratic_residue p (x ^ 3 + a * x + b)"
  then obtain c where c: "1 \<le> c" "c < p" "c * c mod p = (x ^ 3 + a * x + b) mod p"
    by (auto simp: quadratic_residue_def)
  have nd: "\<not> p dvd c" using c(1,2) by (auto dest: zdvd_imp_le)
  let ?a = "y2 ec x"
  have a: "?a = (x ^ 3 + a * x + b) mod p" by (simp add: y2_cubic ec)
  have ac: "?a mod p = c * c mod p" using c(3) a by simp
  define r where "r = ?a ^ nat ((p + 1) div 4) mod p"
  have m3: "p mod 4 = 3" using h by simp
  note R = three_mod_four_sqrt [OF assms(2) m3 nd ac, folded r_def]
  have yx: "ec_y tonelli ec x = Inr r"
    using h mod_sqrt_fast [OF assms(2) m3 nd ac, of tonelli]
    by (simp add: ec_y_def ec r_def)
  have l1: "legendre_symbol r p = 1" using R(2) by (simp add: legendre_symbol_def)
  have l2: "legendre_symbol (p - r) p = p - 1" using R(3) by (simp add: legendre_symbol_def)
  have sq2: "(p - r) * (p - r) mod p = ?a mod p"
  proof -
    have "(p - r) * (p - r) = r * r + p * (p - 2 * r)" by (simp add: algebra_simps)
    then show ?thesis using R(1) by (metis mod_mult_self2)
  qed
  have p3: "p - 1 \<noteq> 1" using m3 by auto
  show "\<exists>r. yQuadraticResidue tonelli ec x want_qr = Inr r
              \<and> r * r mod p = (x ^ 3 + a * x + b) mod p
              \<and> (if legendre_symbol r p = p - 1 then 0 else legendre_symbol r p) = want_qr"
  proof (cases "want_qr = 1")
    case True
    have "yQuadraticResidue tonelli ec x want_qr = Inr r"
      using True yx l1 m3 by (simp add: yQuadraticResidue_def ec)
    then show ?thesis using R(1) a l1 p3 True by auto
  next
    case False
    then have w: "want_qr = 0" using assms(3) by simp
    have "yQuadraticResidue tonelli ec x want_qr = Inr (p - r)"
      using w yx l1 m3 by (simp add: yQuadraticResidue_def ec)
    then show ?thesis using sq2 a l2 w by auto
  qed
qed

theorem yQuadraticResidue_correct_witness:
  "EC_init small_floats 7 5 1 [3, 1] 3 4 0 False = Inr curve7 \<and> is_prime 7
   \<and> 7 mod 4 = (3::int) \<and> quadratic_residue 7 (0 ^ 3 + 5 * 0 + 1)
   \<and> yQuadraticResidue no_tonelli curve7 0 1 = Inr 1
   \<and> yQuadraticResidue no_tonelli curve7 0 0 = Inr 6
   \<and> legendre_symbol 1 7 = 1 \<and> legendre_symbol 6 7 = 7 - 1
   \<and> EC_init small_floats 5 0 1 [0, 1] 3 3 0 False = Inr curve5 \<and> is_prime 5 \<and> 5 mod 4 \<noteq> (3::int)
   \<and> yQuadraticResidue no_tonelli curve5 0 1 = Inl (ValueError PNotThreeModFour)"
proof -
  have q: "quadratic_residue 7 (0 ^ 3 + 5 * 0 + 1)" by code_simp
  have e1: "yQuadraticResidue no_tonelli curve7 0 1 = Inr 1" by code_simp
  have e0: "yQuadraticResidue no_tonelli curve7 0 0 = Inr 6" by code_simp
  have l: "legendre_symbol 1 7 = 1" "legendre_symbol 6 7 = 7 - 1" by code_simp+
  show ?thesis
    using yQuadraticResidue_correct [OF curve7_init is_prime_7, of 1 0 no_tonelli]
      yQuadraticResidue_correct [OF curve5_init is_prime_5, of 1 0 no_tonelli]
      curve7_init curve5_init is_prime_7 is_prime_5 q e1 e0 l
    by simp
qed

lemma ec_y_root:
  assumes "EC_init fl p a b G n h t all_checks = Inr ec" "is_prime p"
    and "p mod 4 \<noteq> 3 \<longrightarrow> sqrt_contract tonelli p"
    and "isOnCurve ec (Tuple [x, y]) = Inr True" "y \<noteq> 0" "0 \<le> x" "x < p"
  shows "\<exists>r. ec_y tonelli ec x = Inr r \<and> (r = y \<or> r = p - y) \<and> 0 < y \<and> y < p"
proof -
  have ec: "ec = mk_EC p a b G n h t" using EC_init_D(2) [OF assms(1)] .
  have p1: "1 < p" using assms(2) by (simp add: is_prime_def)
  have yr: "0 < y" "y < p" and oc: "y2 ec x = y * y mod p"
    using assms(4,5) by (auto simp: ec split: if_splits)
  have nd: "\<not> p dvd y" using yr by (auto dest: zdvd_imp_le)
  have a0: "0 \<le> y2 ec x" "y2 ec x < p" using y2_range [of ec x] p1 by (simp_all add: ec)
  have "\<exists>r. ec_y tonelli ec x = Inr r \<and> 0 \<le> r \<and> r < p \<and> r * r mod p = y * y mod p"
  proof (cases "p mod 4 = 3")
    case True
    have ac: "y2 ec x mod p = y * y mod p" using oc by simp
    note R = three_mod_four_sqrt [OF assms(2) True nd ac]
    show ?thesis
      using mod_sqrt_fast [OF assms(2) True nd ac, of tonelli] R(1,4,5) assms(6,7) oc
      by (simp add: ec_y_def ec)
  next
    case False
    then have sc: "sqrt_contract tonelli p" using assms(3) by simp
    have "\<exists>c\<in>{0..<p}. c * c mod p = y2 ec x" using yr oc by (intro bexI[of _ y]) auto
    then obtain r where "r \<in> {0..<p}" "tonelli (y2 ec x) p = Inr r" "r * r mod p = y2 ec x"
      using sc a0 unfolding sqrt_contract_def by (metis atLeastLessThan_iff)
    then show ?thesis using False assms(6,7) oc by (auto simp: ec_y_def ec mod_sqrt_def)
  qed
  then obtain r where r: "ec_y tonelli ec x = Inr r" "0 \<le> r" "r < p" "r * r mod p = y * y mod p"
    by blast
  have "r = y \<or> r = p - y" using is_prime_sqrt_pm [OF assms(2) r(4) r(2,3) yr] .
  then show ?thesis using r(1) yr by blast
qed

text \<open>
  Claim C7. On a constructed curve whose \<open>p\<close> is prime, for every affine point \<open>(x, y)\<close>
  (so \<open>0 \<le> x < p\<close>) that \<^verbatim>\<open>isOnCurve\<close> accepts with \<open>y \<noteq> 0\<close>, \<^verbatim>\<open>yOdd(x, y & 1)\<close> returns
  exactly \<open>y\<close>. (When \<open>p\<close> is not 3 modulo 4 the square root comes from the general path of
  \<^verbatim>\<open>mod_sqrt\<close>, which is assumed to return a root of every square.)
\<close>

theorem yOdd_roundtrip:
  assumes "EC_init fl p a b G n h t all_checks = Inr ec" "is_prime p"
    and "p mod 4 \<noteq> 3 \<longrightarrow> sqrt_contract tonelli p"
    and "isOnCurve ec (Tuple [x, y]) = Inr True" "y \<noteq> 0" "0 \<le> x" "x < p"
  shows "yOdd tonelli ec x (y AND 1) = Inr y"
proof -
  have ec: "ec = mk_EC p a b G n h t" using EC_init_D(2) [OF assms(1)] .
  have odd: "p mod 2 = 1"
    using EC_init_D(1) [OF assms(1)] by (simp add: spec_enforced_checks_def)
  obtain r where r: "ec_y tonelli ec x = Inr r" "r = y \<or> r = p - y" "0 < y" "y < p"
    using ec_y_root [OF assms] by blast
  have b: "y AND 1 = y mod 2" by (simp add: and_one_eq)
  have f: "y mod 2 = 0 \<or> y mod 2 = 1" by presburger
  show ?thesis
  proof (cases "r = y")
    case True
    then show ?thesis using r(1) f by (auto simp: yOdd_def b)
  next
    case False
    then have rp: "r = p - y" using r(2) by simp
    have "r mod 2 \<noteq> y mod 2" using rp odd by presburger
    then show ?thesis using r(1) f rp by (auto simp: yOdd_def b ec)
  qed
qed

lemma search_sqrt_contract: "sqrt_contract search_sqrt p"
  unfolding sqrt_contract_def
proof (intro ballI impI)
  fix a assume a: "a \<in> {0..<p}" and "\<exists>c\<in>{0..<p}. c * c mod p = a"
  then obtain c where c: "c \<in> set [0..p - 1]" "c * c mod p = a mod p" by auto
  then have "find (\<lambda>r. r * r mod p = a mod p) [0..p - 1] \<noteq> None"
    by (auto simp: find_None_iff)
  then obtain r where r: "find (\<lambda>r. r * r mod p = a mod p) [0..p - 1] = Some r" by auto
  then have "r \<in> set [0..p - 1]" "r * r mod p = a mod p"
    by (auto simp: find_Some_iff in_set_conv_nth)
  then show "\<exists>r\<in>{0..<p}. search_sqrt a p = Inr r \<and> r * r mod p = a"
    using r a by (auto simp: search_sqrt_def)
qed

theorem yOdd_roundtrip_witness:
  "EC_init small_floats 7 5 1 [3, 1] 3 4 0 False = Inr curve7 \<and> is_prime 7
   \<and> isOnCurve curve7 (Tuple [3, 6]) = Inr True \<and> (6::int) \<noteq> 0 \<and> (0::int) \<le> 3 \<and> (3::int) < 7
   \<and> yOdd no_tonelli curve7 3 (6 AND 1) = Inr 6
   \<and> EC_init small_floats 5 0 1 [0, 1] 3 3 0 False = Inr curve5 \<and> is_prime 5
   \<and> sqrt_contract search_sqrt 5
   \<and> isOnCurve curve5 (Tuple [2, 3]) = Inr True \<and> (3::int) \<noteq> 0 \<and> (0::int) \<le> 2 \<and> (2::int) < 5
   \<and> yOdd search_sqrt curve5 2 (3 AND 1) = Inr 3"
proof -
  have m: "(7::int) mod 4 \<noteq> 3 \<longrightarrow> sqrt_contract no_tonelli 7" by simp
  have oc: "isOnCurve curve7 (Tuple [3, 6]) = Inr True" by code_simp
  have m5: "(5::int) mod 4 \<noteq> 3 \<longrightarrow> sqrt_contract search_sqrt 5"
    by (simp add: search_sqrt_contract)
  have oc5: "isOnCurve curve5 (Tuple [2, 3]) = Inr True" by code_simp
  show ?thesis
    using yOdd_roundtrip [OF curve7_init is_prime_7 m oc]
      yOdd_roundtrip [OF curve5_init is_prime_5 m5 oc5]
      curve7_init is_prime_7 oc curve5_init is_prime_5 oc5 search_sqrt_contract [of 5]
    by simp
qed

section \<open>The affine and the Jacobian group law\<close>

lemma EC_init_p:
  assumes "EC_init fl p a b G n h t all_checks = Inr ec"
  shows "1 < p" "p mod 2 = 1" "ec_p ec = p" "ec_a ec = a" "ec_b ec = b" "ec_n ec = n"
proof -
  note c = EC_init_D [OF assms]
  have "p \<noteq> 1" using c(1) by (auto simp: spec_enforced_checks_def fermat_test_def)
  then show "1 < p" using c(1) by (simp add: spec_enforced_checks_def)
  show "p mod 2 = 1" using c(1) by (simp add: spec_enforced_checks_def)
  show "ec_p ec = p" "ec_a ec = a" "ec_b ec = b" "ec_n ec = n" using c(2) by simp_all
qed

lemma mod_diff_ex: "\<exists>d::int. t mod p - t = p * d"
proof
  show "t mod p - t = p * (- (t div p))" by (simp add: minus_mult_div_eq_mod [symmetric])
qed

lemma eq_mod_ex: "\<exists>e::int. a - b = p * e \<Longrightarrow> a mod p = b mod p"
  by (auto simp: mod_eq_dvd_iff)

lemma mod_inv_cases:
  assumes "1 < m"
  shows "(coprime a m \<and> (\<exists>i. mod_inv a m = Inr i \<and> 0 \<le> i \<and> i < m \<and> (\<exists>d. a * i - 1 = m * d)))
       \<or> (\<not> coprime a m \<and> mod_inv a m = Inl (ValueError NoInverse))"
proof (cases "coprime a m")
  case True
  then have g: "gcd (a mod m) m = 1"
    by (metis coprime_iff_gcd_eq_1 gcd.commute gcd_red_int)
  obtain i where i: "mod_inv a m = Inr i" "0 \<le> i" "i < m" "a * i mod m = 1"
    using mod_inv_Inr [OF assms g] by blast
  have "a * i mod m = 1 mod m" using i(4) assms by simp
  then have "\<exists>d. a * i - 1 = m * d" by (simp add: mod_eq_dvd_iff dvd_def)
  then show ?thesis using True i by blast
next
  case False
  then have "gcd (a mod m) m \<noteq> 1"
    by (metis coprime_iff_gcd_eq_1 gcd.commute gcd_red_int)
  then show ?thesis using False by (simp add: mod_inv_def)
qed

lemma mod_inv_one: "1 < m \<Longrightarrow> mod_inv 1 m = Inr 1"
proof -
  assume m: "1 < m"
  have g: "gcd (1 mod m) m = 1" using m by simp
  obtain i where i: "mod_inv 1 m = Inr i" "0 \<le> i" "i < m" "1 * i mod m = 1"
    using mod_inv_Inr [OF m g] by blast
  then have "i = 1" by simp
  then show ?thesis using i(1) by simp
qed

lemma coprime_cong_int:
  "\<exists>d::int. u - v = p * d \<Longrightarrow> coprime u p = coprime v p"
proof -
  assume "\<exists>d::int. u - v = p * d"
  then obtain d where "u = d * p + v" by (auto simp: algebra_simps)
  then have "gcd p u = gcd p v" by (simp only: gcd_add_mult)
  then show ?thesis by (simp only: coprime_iff_gcd_eq_1 gcd.commute [of _ p])
qed

lemma inv2:
  fixes u p i Z j2 :: int
  assumes "\<exists>d. u * i - 1 = p * d" and "\<exists>d. Z - u = p * d" and "\<exists>d. Z * Z * j2 - 1 = p * d"
  shows "\<exists>e. j2 - i * i = p * e"
  using assms by algebra

lemma inv3:
  fixes u p i Z j3 :: int
  assumes "\<exists>d. u * i - 1 = p * d" and "\<exists>d. Z - u = p * d"
    and "\<exists>d. Z * Z * Z * j3 - 1 = p * d"
  shows "\<exists>e. j3 - i * i * i = p * e"
  using assms by algebra

lemma dbl_x:
  fixes x y a p i j2 W V X lam :: int
  assumes "\<exists>d. lam - (3 * x * x + a) * i = p * d"
    and "\<exists>d. 2 * y * i - 1 = p * d"
    and "\<exists>e. j2 - i * i = p * e"
    and "\<exists>d. W - (3 * x * x + a) = p * d"
    and "\<exists>d. V - 4 * x * (y * y) = p * d"
    and "\<exists>d. X - (W * W - 2 * V) = p * d"
  shows "\<exists>e. (lam * lam - x - x) - X * j2 = p * e"
  using assms by algebra

lemma dbl_y:
  fixes x y a p i j3 W V X Y lam x3 :: int
  assumes "\<exists>d. lam - (3 * x * x + a) * i = p * d"
    and "\<exists>d. 2 * y * i - 1 = p * d"
    and "\<exists>e. j3 - i * i * i = p * e"
    and "\<exists>d. W - (3 * x * x + a) = p * d"
    and "\<exists>d. V - 4 * x * (y * y) = p * d"
    and "\<exists>d. X - (W * W - 2 * V) = p * d"
    and "\<exists>d. Y - (W * (V - X) - 8 * (y * y) * (y * y)) = p * d"
    and "\<exists>d. x3 - (lam * lam - x - x) = p * d"
  shows "\<exists>e. (lam * (x - x3) - y) - Y * j3 = p * e"
  using assms by algebra

lemma add_x:
  fixes x1 y1 x2 y2 p i j2 T U W M N V X lam :: int
  assumes "\<exists>d. lam - (y2 - y1) * i = p * d"
    and "\<exists>d. (x2 - x1) * i - 1 = p * d"
    and "\<exists>e. j2 - i * i = p * e"
    and "\<exists>d. T - y1 = p * d" "\<exists>d. U - y2 = p * d" "\<exists>d. W - (U - T) = p * d"
    and "\<exists>d. M - x1 = p * d" "\<exists>d. N - x2 = p * d" "\<exists>d. V - (N - M) = p * d"
    and "\<exists>d. X - (W * W - V * V * V - 2 * (M * (V * V))) = p * d"
  shows "\<exists>e. (lam * lam - x1 - x2) - X * j2 = p * e"
  using assms by algebra

lemma add_y:
  fixes x1 y1 x2 y2 p i j3 T U W M N V X Y lam x3 :: int
  assumes "\<exists>d. lam - (y2 - y1) * i = p * d"
    and "\<exists>d. (x2 - x1) * i - 1 = p * d"
    and "\<exists>e. j3 - i * i * i = p * e"
    and "\<exists>d. T - y1 = p * d" "\<exists>d. U - y2 = p * d" "\<exists>d. W - (U - T) = p * d"
    and "\<exists>d. M - x1 = p * d" "\<exists>d. N - x2 = p * d" "\<exists>d. V - (N - M) = p * d"
    and "\<exists>d. X - (W * W - V * V * V - 2 * (M * (V * V))) = p * d"
    and "\<exists>d. Y - (W * (M * (V * V) - X) - T * (V * V * V)) = p * d"
    and "\<exists>d. x3 - (lam * lam - x1 - x2) = p * d"
  shows "\<exists>e. (lam * (x1 - x3) - y1) - Y * j3 = p * e"
  using assms by algebra

lemma affine_from_jac_one:
  assumes "1 < ec_p ec" "0 \<le> x" "x < ec_p ec" "0 \<le> y" "y < ec_p ec"
  shows "affine_from_jac ec (x, y, 1) = Inr (x, y)"
  using assms by (simp add: affine_from_jac_def mod_inv_one)

lemma addJacobian_affine:
  "addJacobian ec (xq, yq, 1) (xr, yr, 1) =
     (if xq mod ec_p ec = xr mod ec_p ec then
        if yq mod ec_p ec = yr mod ec_p ec then
          (let W = (3 * xq * xq + ec_a ec) mod ec_p ec;
               V = (4 * xq * (yq * yq)) mod ec_p ec;
               X = (W * W - 2 * V) mod ec_p ec;
               Y = (W * (V - X) - 8 * (yq * yq) * (yq * yq)) mod ec_p ec
           in (X, Y, (2 * yq) mod ec_p ec))
        else JacPoint_default
      else
        (let T = yq mod ec_p ec; U = yr mod ec_p ec; W = (U - T) mod ec_p ec;
             M = xq mod ec_p ec; N = xr mod ec_p ec; V = (N - M) mod ec_p ec;
             X = (W * W - V * V * V - 2 * (M * (V * V))) mod ec_p ec;
             Y = (W * (M * (V * V) - X) - T * (V * V * V)) mod ec_p ec
         in (X, Y, V mod ec_p ec)))"
  by (simp add: addJacobian_def Let_def)

lemma affine_from_jac_unit:
  assumes "1 < ec_p ec" "Z \<noteq> 0" "\<exists>d. Z - u = ec_p ec * d" "\<exists>d. u * i - 1 = ec_p ec * d"
  shows "\<exists>j2 j3. affine_from_jac ec (X, Y, Z)
                 = Inr ((X * j2) mod ec_p ec, (Y * j3) mod ec_p ec)
            \<and> (\<exists>e. j2 - i * i = ec_p ec * e) \<and> (\<exists>e. j3 - i * i * i = ec_p ec * e)"
proof -
  let ?p = "ec_p ec"
  have cu: "coprime u ?p"
  proof -
    obtain d where d: "u * i - 1 = ?p * d" using assms(4) by blast
    show ?thesis
    proof (rule coprimeI)
      fix c assume "c dvd u" "c dvd ?p"
      then have "c dvd u * i - ?p * d" by simp
      moreover have "u * i - ?p * d = 1" using d by simp
      ultimately show "is_unit c" by simp
    qed
  qed
  have cz: "coprime Z ?p" using coprime_cong_int [OF assms(3)] cu by simp
  then have c2: "coprime (Z * Z) ?p" and c3: "coprime (Z * Z * Z) ?p" by simp_all
  obtain j2 where j2: "mod_inv (Z * Z) ?p = Inr j2" "\<exists>d. Z * Z * j2 - 1 = ?p * d"
    using mod_inv_cases [OF assms(1), of "Z * Z"] c2 by blast
  obtain j3 where j3: "mod_inv (Z * Z * Z) ?p = Inr j3" "\<exists>d. Z * Z * Z * j3 - 1 = ?p * d"
    using mod_inv_cases [OF assms(1), of "Z * Z * Z"] c3 by blast
  have "affine_from_jac ec (X, Y, Z) = Inr ((X * j2) mod ?p, (Y * j3) mod ?p)"
    using assms(2) j2(1) j3(1) by (simp add: affine_from_jac_def)
  moreover have "\<exists>e. j2 - i * i = ?p * e" using inv2 [OF assms(4,3) j2(2)] .
  moreover have "\<exists>e. j3 - i * i * i = ?p * e" using inv3 [OF assms(4,3) j3(2)] .
  ultimately show ?thesis by blast
qed

lemma affine_from_jac_nonunit:
  assumes "1 < ec_p ec" "Z \<noteq> 0" "\<exists>d. Z - u = ec_p ec * d" "\<not> coprime u (ec_p ec)"
  shows "affine_from_jac ec (X, Y, Z) = Inl (ValueError NoInverse)"
proof -
  have "\<not> coprime Z (ec_p ec)" using coprime_cong_int [OF assms(3)] assms(4) by simp
  then have "\<not> coprime (Z * Z) (ec_p ec)" by simp
  then have "mod_inv (Z * Z) (ec_p ec) = Inl (ValueError NoInverse)"
    using mod_inv_cases [OF assms(1), of "Z * Z"] by blast
  then show ?thesis using assms(2) by (simp add: affine_from_jac_def)
qed

lemma not_dvd_in_range: "0 < (z::int) \<Longrightarrow> z < p \<Longrightarrow> z mod p \<noteq> 0"
  by simp

lemma double_paths_agree:
  assumes p: "1 < ec_p ec" "ec_p ec mod 2 = 1"
    and r: "0 \<le> x" "x < ec_p ec" "0 < y" "y < ec_p ec"
  shows "addAffine ec (x, y) (x, y)
       = affine_from_jac ec (addJacobian ec (x, y, 1) (x, y, 1))"
proof -
  let ?p = "ec_p ec"
  define W where "W = (3 * x * x + ec_a ec) mod ?p"
  define V where "V = (4 * x * (y * y)) mod ?p"
  define X where "X = (W * W - 2 * V) mod ?p"
  define Y where "Y = (W * (V - X) - 8 * (y * y) * (y * y)) mod ?p"
  define Z where "Z = (2 * y) mod ?p"
  have J: "addJacobian ec (x, y, 1) (x, y, 1) = (X, Y, Z)"
    by (simp add: addJacobian_affine Let_def W_def V_def X_def Y_def Z_def)
  have Zu: "\<exists>d. Z - 2 * y = ?p * d" unfolding Z_def by (rule mod_diff_ex)
  have Z0: "Z \<noteq> 0"
  proof
    assume "Z = 0"
    then have "?p dvd 2 * y" by (simp add: Z_def dvd_eq_mod_eq_0)
    moreover have "coprime ?p 2" using p(2) by (metis coprime_commute odd_iff_mod_2_eq_one coprime_left_2_iff_odd)
    ultimately have "?p dvd y" by (simp add: coprime_dvd_mult_right_iff)
    then show False using r(3,4) by (auto dest: zdvd_imp_le)
  qed
  show ?thesis
  proof (cases "coprime (2 * y) ?p")
    case False
    have "addAffine ec (x, y) (x, y) = Inl (ValueError NoInverse)"
      using mod_inv_cases [OF p(1), of "2 * y"] False r(3) by (auto simp: addAffine_def)
    then show ?thesis using affine_from_jac_nonunit [OF p(1) Z0 Zu False] J by simp
  next
    case True
    then obtain i where i: "mod_inv (2 * y) ?p = Inr i" "\<exists>d. 2 * y * i - 1 = ?p * d"
      using mod_inv_cases [OF p(1), of "2 * y"] by blast
    define lam where "lam = ((3 * x * x + ec_a ec) * i) mod ?p"
    define x3 where "x3 = (lam * lam - x - x) mod ?p"
    have A: "addAffine ec (x, y) (x, y) = Inr (x3, (lam * (x - x3) - y) mod ?p)"
      using i(1) r(3) by (simp add: addAffine_def Let_def lam_def x3_def)
    obtain j2 j3 where j: "affine_from_jac ec (X, Y, Z) = Inr ((X * j2) mod ?p, (Y * j3) mod ?p)"
      "\<exists>e. j2 - i * i = ?p * e" "\<exists>e. j3 - i * i * i = ?p * e"
      using affine_from_jac_unit [OF p(1) Z0 Zu i(2)] by blast
    have hl: "\<exists>d. lam - (3 * x * x + ec_a ec) * i = ?p * d" unfolding lam_def by (rule mod_diff_ex)
    have hW: "\<exists>d. W - (3 * x * x + ec_a ec) = ?p * d" unfolding W_def by (rule mod_diff_ex)
    have hV: "\<exists>d. V - 4 * x * (y * y) = ?p * d" unfolding V_def by (rule mod_diff_ex)
    have hX: "\<exists>d. X - (W * W - 2 * V) = ?p * d" unfolding X_def by (rule mod_diff_ex)
    have hY: "\<exists>d. Y - (W * (V - X) - 8 * (y * y) * (y * y)) = ?p * d"
      unfolding Y_def by (rule mod_diff_ex)
    have h3: "\<exists>d. x3 - (lam * lam - x - x) = ?p * d" unfolding x3_def by (rule mod_diff_ex)
    have ex: "x3 = (X * j2) mod ?p"
      unfolding x3_def by (rule eq_mod_ex) (rule dbl_x [OF hl i(2) j(2) hW hV hX])
    have ey: "(lam * (x - x3) - y) mod ?p = (Y * j3) mod ?p"
      by (rule eq_mod_ex) (rule dbl_y [OF hl i(2) j(3) hW hV hX hY h3])
    show ?thesis using A J j(1) ex ey by simp
  qed
qed

lemma chord_paths_agree:
  assumes p: "1 < ec_p ec"
    and r: "0 \<le> xq" "xq < ec_p ec" "0 < yq" "yq < ec_p ec"
           "0 \<le> xr" "xr < ec_p ec" "0 < yr" "yr < ec_p ec"
    and ne: "xq \<noteq> xr"
  shows "addAffine ec (xq, yq) (xr, yr)
       = affine_from_jac ec (addJacobian ec (xq, yq, 1) (xr, yr, 1))"
proof -
  let ?p = "ec_p ec"
  define T where "T = yq mod ?p"
  define U where "U = yr mod ?p"
  define W where "W = (U - T) mod ?p"
  define M where "M = xq mod ?p"
  define N where "N = xr mod ?p"
  define V where "V = (N - M) mod ?p"
  define X where "X = (W * W - V * V * V - 2 * (M * (V * V))) mod ?p"
  define Y where "Y = (W * (M * (V * V) - X) - T * (V * V * V)) mod ?p"
  define Z where "Z = V mod ?p"
  have xm: "xq mod ?p \<noteq> xr mod ?p" using r ne by simp
  have J: "addJacobian ec (xq, yq, 1) (xr, yr, 1) = (X, Y, Z)"
    using xm by (simp add: addJacobian_affine Let_def T_def U_def W_def M_def N_def V_def X_def Y_def Z_def)
  have hT: "\<exists>d. T - yq = ?p * d" unfolding T_def by (rule mod_diff_ex)
  have hU: "\<exists>d. U - yr = ?p * d" unfolding U_def by (rule mod_diff_ex)
  have hW: "\<exists>d. W - (U - T) = ?p * d" unfolding W_def by (rule mod_diff_ex)
  have hM: "\<exists>d. M - xq = ?p * d" unfolding M_def by (rule mod_diff_ex)
  have hN: "\<exists>d. N - xr = ?p * d" unfolding N_def by (rule mod_diff_ex)
  have hV: "\<exists>d. V - (N - M) = ?p * d" unfolding V_def by (rule mod_diff_ex)
  have hX: "\<exists>d. X - (W * W - V * V * V - 2 * (M * (V * V))) = ?p * d"
    unfolding X_def by (rule mod_diff_ex)
  have hY: "\<exists>d. Y - (W * (M * (V * V) - X) - T * (V * V * V)) = ?p * d"
    unfolding Y_def by (rule mod_diff_ex)
  have ZV: "Z = (xr - xq) mod ?p"
    unfolding Z_def V_def N_def M_def by (simp add: mod_diff_eq)
  have Zu: "\<exists>d. Z - (xr - xq) = ?p * d" unfolding ZV by (rule mod_diff_ex)
  have Z0: "Z \<noteq> 0"
  proof
    assume "Z = 0"
    then have "xr mod ?p = xq mod ?p" unfolding ZV by (simp add: mod_eq_dvd_iff dvd_eq_mod_eq_0)
    then show False using xm by simp
  qed
  show ?thesis
  proof (cases "coprime (xr - xq) ?p")
    case False
    have "addAffine ec (xq, yq) (xr, yr) = Inl (ValueError NoInverse)"
      using mod_inv_cases [OF p(1), of "xr - xq"] False r ne by (auto simp: addAffine_def)
    then show ?thesis using affine_from_jac_nonunit [OF p(1) Z0 Zu False] J by simp
  next
    case True
    then obtain i where i: "mod_inv (xr - xq) ?p = Inr i" "\<exists>d. (xr - xq) * i - 1 = ?p * d"
      using mod_inv_cases [OF p(1), of "xr - xq"] by blast
    define lam where "lam = ((yr - yq) * i) mod ?p"
    define x3 where "x3 = (lam * lam - xq - xr) mod ?p"
    have A: "addAffine ec (xq, yq) (xr, yr) = Inr (x3, (lam * (xq - x3) - yq) mod ?p)"
      using i(1) r ne by (simp add: addAffine_def Let_def lam_def x3_def)
    obtain j2 j3 where j: "affine_from_jac ec (X, Y, Z) = Inr ((X * j2) mod ?p, (Y * j3) mod ?p)"
      "\<exists>e. j2 - i * i = ?p * e" "\<exists>e. j3 - i * i * i = ?p * e"
      using affine_from_jac_unit [OF p(1) Z0 Zu i(2)] by blast
    have hl: "\<exists>d. lam - (yr - yq) * i = ?p * d" unfolding lam_def by (rule mod_diff_ex)
    have h3: "\<exists>d. x3 - (lam * lam - xq - xr) = ?p * d" unfolding x3_def by (rule mod_diff_ex)
    have ex: "x3 = (X * j2) mod ?p"
      unfolding x3_def by (rule eq_mod_ex) (rule add_x [OF hl i(2) j(2) hT hU hW hM hN hV hX])
    have ey: "(lam * (xq - x3) - yq) mod ?p = (Y * j3) mod ?p"
      by (rule eq_mod_ex) (rule add_y [OF hl i(2) j(3) hT hU hW hM hN hV hX hY h3])
    show ?thesis using A J j(1) ex ey by simp
  qed
qed

text \<open>
  Claim C3, as amended. On a constructed curve, for all points \<open>Q\<close> and \<open>R\<close> with
  coordinates in \<open>[0, p - 1]\<close> (on the curve or not), \<^verbatim>\<open>_addAffine(Q, R)\<close> equals the
  Jacobian sum converted back, errors included, unless both \<open>Q\<close> and \<open>R\<close> encode infinity
  (\<open>y = 0\<close>): then \<^verbatim>\<open>_addAffine\<close> returns \<open>Q\<close> as it was given and the Jacobian path returns
  the canonical \<open>(1, 0)\<close>.
\<close>

theorem addAffine_agrees_with_Jacobian:
  assumes "EC_init fl p a b G n h t all_checks = Inr ec" "affine_point ec Q" "affine_point ec R"
  shows "(snd Q = 0 \<and> snd R = 0 \<longrightarrow>
            addAffine ec Q R = Inr Q
            \<and> affine_from_jac ec (addJacobian ec (jac_from_aff Q) (jac_from_aff R)) = Inr (1, 0))
       \<and> (snd Q \<noteq> 0 \<or> snd R \<noteq> 0 \<longrightarrow>
            addAffine ec Q R
            = affine_from_jac ec (addJacobian ec (jac_from_aff Q) (jac_from_aff R)))"
proof -
  obtain xq yq xr yr where Q: "Q = (xq, yq)" and R: "R = (xr, yr)" by (cases Q, cases R) blast
  have p: "1 < ec_p ec" "ec_p ec mod 2 = 1" using EC_init_p [OF assms(1)] by simp_all
  have rq: "0 \<le> xq" "xq < ec_p ec" "0 \<le> yq" "yq < ec_p ec"
    using assms(2) by (simp_all add: affine_point_def Q)
  have rr: "0 \<le> xr" "xr < ec_p ec" "0 \<le> yr" "yr < ec_p ec"
    using assms(3) by (simp_all add: affine_point_def R)
  show ?thesis
  proof (cases "yq = 0")
    case True
    show ?thesis
    proof (cases "yr = 0")
      case True
      with \<open>yq = 0\<close> show ?thesis
        by (simp add: Q R addAffine_def jac_from_aff_def addJacobian_def JacPoint_default_def
            affine_from_jac_def Point_default_def)
    next
      case False
      with \<open>yq = 0\<close> show ?thesis
        using affine_from_jac_one [OF p(1) rr]
        by (simp add: Q R addAffine_def jac_from_aff_def addJacobian_def JacPoint_default_def)
    qed
  next
    case False
    note yq = False
    show ?thesis
    proof (cases "yr = 0")
      case True
      with yq show ?thesis
        using affine_from_jac_one [OF p(1) rq]
        by (simp add: Q R addAffine_def jac_from_aff_def addJacobian_def JacPoint_default_def)
    next
      case False
      have pq: "0 < yq" and pr: "0 < yr" using yq False rq(3) rr(3) by linarith+
      have jq: "jac_from_aff Q = (xq, yq, 1)" and jr: "jac_from_aff R = (xr, yr, 1)"
        using yq False by (simp_all add: Q R jac_from_aff_def)
      have "addAffine ec (xq, yq) (xr, yr)
          = affine_from_jac ec (addJacobian ec (xq, yq, 1) (xr, yr, 1))"
      proof (cases "xr = xq")
        case True
        note xe = True
        show ?thesis
        proof (cases "yr = yq")
          case True
          then show ?thesis
            using double_paths_agree [OF p rq(1,2) pq rq(4)] xe by simp
        next
          case False
          then have "yq mod ec_p ec \<noteq> yr mod ec_p ec" using rq rr by simp
          then show ?thesis
            using xe False yq \<open>yr \<noteq> 0\<close>
            by (simp add: addAffine_def addJacobian_affine JacPoint_default_def
                affine_from_jac_def Point_default_def)
        qed
      next
        case False
        then have "xq \<noteq> xr" by simp
        then show ?thesis
          using chord_paths_agree [OF p(1) rq(1,2) pq rq(4) rr(1,2) pr rr(4)] by simp
      qed
      then show ?thesis using yq False jq jr by (simp add: Q R)
    qed
  qed
qed

theorem addAffine_agrees_with_Jacobian_witness:
  "EC_init small_floats 5 0 1 [0, 1] 3 3 0 False = Inr curve5
   \<and> affine_point curve5 (2, 3) \<and> affine_point curve5 (0, 1)
   \<and> addAffine curve5 (2, 3) (0, 1) = Inr (4, 0)
   \<and> affine_from_jac curve5 (addJacobian curve5 (jac_from_aff (2, 3)) (jac_from_aff (0, 1)))
     = Inr (4, 0)
   \<and> affine_point curve5 (2, 0) \<and> affine_point curve5 (1, 0)
   \<and> addAffine curve5 (2, 0) (1, 0) = Inr (2, 0)"
proof -
  have a: "affine_point curve5 (2, 3)" "affine_point curve5 (0, 1)"
    "affine_point curve5 (2, 0)" "affine_point curve5 (1, 0)" by code_simp+
  have e: "addAffine curve5 (2, 3) (0, 1) = Inr (4, 0)" by code_simp
  show ?thesis
    using addAffine_agrees_with_Jacobian [OF curve5_init a(1,2)]
      addAffine_agrees_with_Jacobian [OF curve5_init a(3,4)] curve5_init a e
    by simp
qed

text \<open>
  Claim C3 as stated fails: \<open>(2, 0)\<close> and \<open>(1, 0)\<close> are accepted by \<^verbatim>\<open>isOnCurve\<close> (both encode
  infinity); \<^verbatim>\<open>_addAffine\<close> returns \<open>(2, 0)\<close> and the Jacobian path returns \<open>(1, 0)\<close>.
\<close>

theorem addAffine_infinity_counterexample:
  "EC_init small_floats 5 0 1 [0, 1] 3 3 0 False = Inr curve5
   \<and> isOnCurve curve5 (Pt (2, 0)) = Inr True \<and> isOnCurve curve5 (Pt (1, 0)) = Inr True
   \<and> addAffine curve5 (2, 0) (1, 0) = Inr (2, 0)
   \<and> affine_from_jac curve5 (addJacobian curve5 (jac_from_aff (2, 0)) (jac_from_aff (1, 0)))
     = Inr (1, 0)
   \<and> (2, 0) \<noteq> (1 :: int, 0 :: int)"
proof -
  have 1: "isOnCurve curve5 (Pt (2, 0)) = Inr True" "isOnCurve curve5 (Pt (1, 0)) = Inr True"
    by code_simp+
  have 2: "addAffine curve5 (2, 0) (1, 0) = Inr (2, 0)" by code_simp
  have 3: "affine_from_jac curve5 (addJacobian curve5 (jac_from_aff (2, 0)) (jac_from_aff (1, 0)))
     = Inr (1, 0)" by code_simp
  show ?thesis using curve5_init 1 2 3 by simp
qed

section \<open>Closure of the group law and the order of the generator\<close>























section \<open>Scalar multiplication with zero scalars\<close>

text \<open>
  Claim C10. For all values \<open>Q\<close> and \<open>P\<close>, on the curve or not, pairs or not,
  \<^verbatim>\<open>DblScalarMult(ec, 0, Q, 0, P)\<close> returns \<open>(1, 0)\<close> and raises nothing.
\<close>

theorem DblScalarMult_zero_zero: "DblScalarMult ec 0 Q 0 P = Inr (1, 0)"
  by (simp add: DblScalarMult_def Point_default_def)

end
